theory Spec2Isabelle
  imports Main "HOL-Library.Word"
begin

section \<open>The file-backed stream of vtestream-file.h\<close>

text \<open>
  The stream keeps two temporary files: \<open>fd[0]\<close> holds the generation that is open for
  appending, \<open>fd[1]\<close> the one before it. \<open>offset[0]\<close> and \<open>offset[1]\<close> are the stream
  offsets at which the two generations start and \<open>head\<close> is the offset after the last byte.
  All three are \<open>gsize\<close>, taken here as the 64-bit unsigned integer of an LP64 platform,
  so that \<open>+\<close> and \<open>-\<close> wrap around as they do in C. A descriptor is a \<open>gint\<close>; the value
  0 stands for "no file yet".
\<close>

type_synonym gsize = "64 word"

subsection \<open>The operating system\<close>

text \<open>
  The calls \<open>pread\<close>, \<open>pwrite\<close>, \<open>ftruncate\<close>, \<open>lseek\<close> and GLib's
  \<open>g_output_stream_splice\<close> are not code of the repository. They are modelled by a small
  file system: every descriptor names a byte sequence. What a call does beyond the ideal
  behaviour is decided by a script of events, read from the front: \<open>Fail e\<close> makes the next
  call return -1 with \<open>errno = e\<close>, \<open>Transfer n\<close> makes the next transfer move at most
  \<open>n\<close> bytes. With an empty script every call succeeds in full. \<open>ftruncate\<close> takes its
  length as an \<open>off_t\<close>, a signed 64-bit integer: a \<open>gsize\<close> of \<open>2 ^ 63\<close> or more is a
  negative length there, and the call fails with EINVAL and leaves the file as it is,
  whatever the script. With a length below \<open>2 ^ 63\<close>, \<open>ftruncate\<close> on a temporary file is
  taken to fail by interruption only, so it consumes \<open>Fail EINTR\<close> and nothing else.
  The journal lists the changes made to files and the truncations that were refused,
  oldest first.
  Descriptors held by a stream are returned by \<open>_vte_mkstemp\<close> and are closed by
  \<open>finalize\<close> only, so every non-zero handle of a stream names an open file; positions
  beyond the end of a file read as end of file, and a write there leaves a hole of zero
  bytes. A position is the \<open>gsize\<close> passed, read as a natural number; that
  \<open>pread\<close>, \<open>pwrite\<close> and \<open>lseek\<close> refuse a position of \<open>2 ^ 63\<close> or more is not
  modelled, and the statements about writes that succeed are made below that bound. \<open>pread\<close> and
  \<open>pwrite\<close> are those of the system (\<open>HAVE_PREAD\<close>, \<open>HAVE_PWRITE\<close>) and leave the
  position of the descriptor alone; only \<open>lseek\<close> and the splice move it.
\<close>

datatype errno = EINTR | EINVAL | ENOSPC | EIO

datatype event = Fail errno | Transfer nat

datatype effect = Created int | Wrote int nat string | Resized int nat | Refused int nat

record sys =
  files :: "int \<Rightarrow> string"
  seekpos :: "int \<Rightarrow> nat"
  created :: nat
  script :: "event list"
  journal :: "effect list"
  sink :: string

definition resize :: "string \<Rightarrow> nat \<Rightarrow> string" where
  "resize f n = take n f @ replicate (n - length f) (CHR 0x00)"

definition write_at :: "string \<Rightarrow> nat \<Rightarrow> string \<Rightarrow> string" where
  "write_at f p bs = (if bs = [] then f else resize f p @ bs @ drop (p + length bs) f)"

definition interrupted :: "sys \<Rightarrow> bool" where
  "interrupted k = (case script k of [] \<Rightarrow> False | e # es \<Rightarrow> e = Fail EINTR)"

definition sys_ftruncate :: "int \<Rightarrow> gsize \<Rightarrow> sys \<Rightarrow> errno option \<times> sys" where
  "sys_ftruncate fd n k =
     (if 2 ^ 63 \<le> unat n
      then (Some EINVAL, k\<lparr>journal := journal k @ [Refused fd (unat n)]\<rparr>)
      else if interrupted k then (Some EINTR, k\<lparr>script := tl (script k)\<rparr>)
      else (None, k\<lparr>files := (files k)(fd := resize (files k fd) (unat n)),
                      journal := journal k @ [Resized fd (unat n)]\<rparr>))"

definition commit_write :: "int \<Rightarrow> string \<Rightarrow> nat \<Rightarrow> nat \<Rightarrow> sys \<Rightarrow> (errno + nat) \<times> sys" where
  "commit_write fd data n p k =
     (Inr n, if n = 0 then k
             else k\<lparr>files := (files k)(fd := write_at (files k fd) p (take n data)),
                    journal := journal k @ [Wrote fd p (take n data)]\<rparr>)"

definition sys_pwrite :: "int \<Rightarrow> string \<Rightarrow> gsize \<Rightarrow> gsize \<Rightarrow> sys \<Rightarrow> (errno + nat) \<times> sys" where
  "sys_pwrite fd data len off k =
     (case script k of
        [] \<Rightarrow> commit_write fd data (unat len) (unat off) k
      | Fail e # es \<Rightarrow> (Inl e, k\<lparr>script := es\<rparr>)
      | Transfer m # es \<Rightarrow> commit_write fd data (min m (unat len)) (unat off) (k\<lparr>script := es\<rparr>))"

definition sys_pread :: "int \<Rightarrow> gsize \<Rightarrow> gsize \<Rightarrow> sys \<Rightarrow> (errno + string) \<times> sys" where
  "sys_pread fd len off k =
     (case script k of
        [] \<Rightarrow> (Inr (take (unat len) (drop (unat off) (files k fd))), k)
      | Fail e # es \<Rightarrow> (Inl e, k\<lparr>script := es\<rparr>)
      | Transfer m # es \<Rightarrow>
          (Inr (take (min m (unat len)) (drop (unat off) (files k fd))), k\<lparr>script := es\<rparr>))"

definition sys_lseek :: "int \<Rightarrow> gsize \<Rightarrow> sys \<Rightarrow> sys" where
  "sys_lseek fd off k = k\<lparr>seekpos := (seekpos k)(fd := unat off)\<rparr>"

text \<open>
  \<open>g_output_stream_splice\<close> over a \<open>GUnixInputStream\<close> of the descriptor: the bytes from
  the descriptor's position to the end of the file go to the sink. A \<open>Fail\<close> event is a
  failure before anything is delivered; \<open>Transfer n\<close> is a sink failure or a cancellation
  after \<open>n\<close> bytes when the file has more than that left.
\<close>

definition g_output_stream_splice :: "int \<Rightarrow> sys \<Rightarrow> bool \<times> sys" where
  "g_output_stream_splice fd k =
     (let rest = drop (seekpos k fd) (files k fd) in
      case script k of
        [] \<Rightarrow> (True, k\<lparr>sink := sink k @ rest, seekpos := (seekpos k)(fd := seekpos k fd + length rest)\<rparr>)
      | Fail e # es \<Rightarrow> (False, k\<lparr>script := es\<rparr>)
      | Transfer m # es \<Rightarrow>
          (length rest \<le> m,
           k\<lparr>script := es, sink := sink k @ take m rest,
             seekpos := (seekpos k)(fd := seekpos k fd + min m (length rest))\<rparr>))"

text \<open>
  Modelled from the spec: \<open>_vte_mkstemp\<close> (vteutils.c is not among the sources) allocates
  the store of a generation, an empty temporary file, and returns its descriptor, or -1
  when the store cannot be allocated. Descriptors 0, 1 and 2 are the standard streams, so
  the files created get 3, 4, ... The allocation fails on a \<open>Fail\<close> event other than an
  interruption; interruptions and \<open>Transfer\<close> events are left to the calls that follow.
\<close>

definition allocation_fails :: "sys \<Rightarrow> bool" where
  "allocation_fails k =
     (case script k of [] \<Rightarrow> False | Fail e # es \<Rightarrow> e \<noteq> EINTR | Transfer n # es \<Rightarrow> False)"

definition vte_mkstemp :: "sys \<Rightarrow> int \<times> sys" where
  "vte_mkstemp k =
     (if allocation_fails k then (- 1, k\<lparr>script := tl (script k)\<rparr>)
      else (let fd = int (created k) + 3 in
            (fd, k\<lparr>files := (files k)(fd := []), created := Suc (created k),
                   journal := journal k @ [Created fd]\<rparr>)))"

subsection \<open>The retrying wrappers\<close>

lemma sys_ftruncate_EINTR:
  "sys_ftruncate fd n k = (Some EINTR, k') \<Longrightarrow> length (script k') < length (script k)"
  by (auto simp: sys_ftruncate_def interrupted_def split: if_splits list.splits)

lemma sys_ftruncate_script:
  "sys_ftruncate fd n k = (r, k') \<Longrightarrow> length (script k') \<le> length (script k)"
  by (auto simp: sys_ftruncate_def interrupted_def split: if_splits list.splits)

function xtruncate :: "int \<Rightarrow> gsize \<Rightarrow> sys \<Rightarrow> sys" where
  "xtruncate fd offset k =
     (if fd = 0 then k
      else case sys_ftruncate fd offset k of
             (Some e, k') \<Rightarrow> if e = EINTR then xtruncate fd offset k' else k'
           | (None, k') \<Rightarrow> k')"
  by pat_completeness auto
termination
  by (relation "measure (\<lambda>(fd, offset, k). length (script k))")
     (auto dest: sys_ftruncate_EINTR [OF sym])

declare xtruncate.simps [simp del]

lemma xtruncate_script: "length (script (xtruncate fd offset k)) \<le> length (script k)"
proof (induction fd offset k rule: xtruncate.induct)
  case (1 fd offset k)
  show ?case
  proof (cases "sys_ftruncate fd offset k")
    case (Pair r k')
    show ?thesis
    proof (cases "fd \<noteq> 0 \<and> r = Some EINTR")
      case True
      with 1 Pair
      have "length (script (xtruncate fd offset k')) \<le> length (script k')"
        by (metis prod.sel(2))
      moreover from True Pair have "xtruncate fd offset k = xtruncate fd offset k'"
        by (subst xtruncate.simps) simp
      ultimately show ?thesis
        using sys_ftruncate_script [OF Pair] by simp
    next
      case False
      with Pair sys_ftruncate_script [OF Pair] show ?thesis
        by (subst xtruncate.simps) (auto split: option.splits)
    qed
  qed
qed

lemma sys_pread_script:
  "sys_pread fd len off k = (r, k') \<Longrightarrow> length (script k') \<le> length (script k)"
  by (auto simp: sys_pread_def split: list.splits event.splits)

lemma sys_pread_Inl:
  "sys_pread fd len off k = (Inl e, k') \<Longrightarrow> length (script k') < length (script k)"
  by (auto simp: sys_pread_def split: list.splits event.splits)

lemma sys_pread_Inr:
  "sys_pread fd len off k = (Inr bs, k') \<Longrightarrow> length bs \<le> unat len"
  by (auto simp: sys_pread_def split: list.splits event.splits)

lemma unat_sub_of_nat:
  fixes len :: gsize
  assumes "n \<le> unat len"
  shows "unat (len - of_nat n) = unat len - n"
proof -
  have "(of_nat n :: gsize) \<le> len"
    using assms by (metis le_unat_uoi word_le_nat_alt)
  moreover have "unat (of_nat n :: gsize) = n"
    using assms by (metis le_unat_uoi)
  ultimately show ?thesis
    by (simp add: unat_sub)
qed

function xpread_loop :: "int \<Rightarrow> gsize \<Rightarrow> gsize \<Rightarrow> string \<Rightarrow> sys \<Rightarrow> string \<times> sys" where
  "xpread_loop fd len offset buf k =
     (if len = 0 then (buf, k)
      else case sys_pread fd len offset k of
             (Inl e, k') \<Rightarrow> if e = EINTR then xpread_loop fd len offset buf k' else (buf, k')
           | (Inr bs, k') \<Rightarrow>
               if bs = [] then (buf, k')
               else xpread_loop fd (len - of_nat (length bs)) (offset + of_nat (length bs))
                      (buf @ bs) k')"
  by pat_completeness auto
termination
proof (relation "measure (\<lambda>(fd, len, offset, buf, k). length (script k) + unat len)", goal_cases)
  case 1
  show ?case by simp
next
  case (2 fd len offset buf k x1 k' e)
  then show ?case
    using sys_pread_Inl [of fd len offset k e k'] by simp
next
  case (3 fd len offset buf k x1 k' bs)
  then have r: "sys_pread fd len offset k = (Inr bs, k')" by simp
  from sys_pread_Inr [OF r] have le: "length bs \<le> unat len" .
  from 3 have "0 < length bs" by simp
  with le have "unat len - length bs < unat len" by arith
  with unat_sub_of_nat [OF le] sys_pread_script [OF r] show ?case
    by simp
qed

declare xpread_loop.simps [simp del]

definition xpread :: "int \<Rightarrow> gsize \<Rightarrow> gsize \<Rightarrow> sys \<Rightarrow> string \<times> sys" where
  "xpread fd len offset k =
     (if len \<noteq> 0 \<and> fd = 0 then ([], k) else xpread_loop fd len offset [] k)"

lemma commit_write_script:
  "commit_write fd data n p k = (r, k') \<Longrightarrow> script k' = script k \<and> r = Inr n"
  by (auto simp: commit_write_def)

lemma sys_pwrite_script:
  "sys_pwrite fd data len off k = (r, k') \<Longrightarrow> length (script k') \<le> length (script k)"
  by (auto simp: sys_pwrite_def dest!: commit_write_script split: list.splits event.splits)

lemma sys_pwrite_Inl:
  "sys_pwrite fd data len off k = (Inl e, k') \<Longrightarrow> length (script k') < length (script k)"
  by (auto simp: sys_pwrite_def dest!: commit_write_script split: list.splits event.splits)

lemma sys_pwrite_Inr:
  "sys_pwrite fd data len off k = (Inr n, k') \<Longrightarrow>
   n \<le> unat len \<and> (length (script k') < length (script k) \<or> n = unat len)"
  by (auto simp: sys_pwrite_def dest!: commit_write_script split: list.splits event.splits)

datatype error = AssertionFailed

function xpwrite_loop :: "int \<Rightarrow> string \<Rightarrow> gsize \<Rightarrow> gsize \<Rightarrow> bool \<Rightarrow> sys \<Rightarrow> sys" where
  "xpwrite_loop fd data len offset truncated k =
     (if len = 0 then k
      else case sys_pwrite fd data len offset k of
             (Inl e, k') \<Rightarrow>
               if e = EINTR then xpwrite_loop fd data len offset truncated k'
               else if e = EINVAL \<and> \<not> truncated
                 then xpwrite_loop fd data len offset True (xtruncate fd offset k')
               else k'
           | (Inr n, k') \<Rightarrow>
               if n = 0 then k'
               else xpwrite_loop fd (drop n data) (len - of_nat n) (offset + of_nat n)
                      truncated k')"
  by pat_completeness auto
termination
proof (relation "measure (\<lambda>(fd, data, len, offset, truncated, k). length (script k) + unat len)",
    goal_cases)
  case 1
  show ?case by simp
next
  case (2 fd data len offset truncated k x1 k' e)
  then show ?case
    using sys_pwrite_Inl [of fd data len offset k e k'] by simp
next
  case (3 fd data len offset truncated k x1 k' e)
  then show ?case
    using sys_pwrite_Inl [of fd data len offset k e k'] xtruncate_script [of fd offset k']
    by simp
next
  case (4 fd data len offset truncated k x1 k' n)
  then have r: "sys_pwrite fd data len offset k = (Inr n, k')" by simp
  from sys_pwrite_Inr [OF r] have le: "n \<le> unat len"
    and alt: "length (script k') < length (script k) \<or> n = unat len" by simp_all
  from 4 have "0 < n" by simp
  with le have "unat len - n < unat len" by arith
  with unat_sub_of_nat [OF le] sys_pwrite_script [OF r] show ?case
    by simp
qed

declare xpwrite_loop.simps [simp del]

text \<open>\<open>g_assert (fd || !len)\<close> aborts the program; the abort is the error value.\<close>

definition xpwrite :: "int \<Rightarrow> string \<Rightarrow> gsize \<Rightarrow> gsize \<Rightarrow> sys \<Rightarrow> error + sys" where
  "xpwrite fd data len offset k =
     (if \<not> (fd \<noteq> 0 \<or> len = 0) then Inl AssertionFailed
      else Inr (xpwrite_loop fd data len offset False k))"

definition xwrite_contents :: "int \<Rightarrow> sys \<Rightarrow> bool \<times> sys" where
  "xwrite_contents fd k = (if fd = 0 then (True, k) else g_output_stream_splice fd k)"

subsection \<open>VteFileStream\<close>

text \<open>The fields \<open>fd0\<close>, \<open>fd1\<close> are \<open>fd[0]\<close>, \<open>fd[1]\<close>, and \<open>offset0\<close>, \<open>offset1\<close> are
  \<open>offset[0]\<close>, \<open>offset[1]\<close>. \<open>g_object_new\<close> returns the structure filled with zeros.\<close>

record VteFileStream =
  fd0 :: int
  fd1 :: int
  offset0 :: gsize
  offset1 :: gsize
  head :: gsize

definition vte_file_stream_new :: VteFileStream where
  "vte_file_stream_new = \<lparr>fd0 = 0, fd1 = 0, offset0 = 0, offset1 = 0, head = 0\<rparr>"

definition vte_file_stream_ensure_fd0 :: "VteFileStream \<Rightarrow> sys \<Rightarrow> VteFileStream \<times> sys" where
  "vte_file_stream_ensure_fd0 s k =
     (if fd0 s \<noteq> 0 then (s, k)
      else case vte_mkstemp k of
             (fd, k') \<Rightarrow> if fd = - 1 then (s, k') else (s\<lparr>fd0 := fd\<rparr>, k'))"

definition vte_file_stream_reset :: "VteFileStream \<Rightarrow> gsize \<Rightarrow> sys \<Rightarrow> VteFileStream \<times> sys" where
  "vte_file_stream_reset s offset k =
     (let k1 = (if fd0 s \<noteq> 0 then xtruncate (fd0 s) 0 k else k);
          k2 = (if fd1 s \<noteq> 0 then xtruncate (fd1 s) 0 k1 else k1)
      in (s\<lparr>offset1 := offset, offset0 := offset, head := offset\<rparr>, k2))"

definition vte_file_stream_append ::
  "VteFileStream \<Rightarrow> string \<Rightarrow> gsize \<Rightarrow> sys \<Rightarrow> error + VteFileStream \<times> sys" where
  "vte_file_stream_append s data len k =
     (case vte_file_stream_ensure_fd0 s k of
        (s1, k1) \<Rightarrow>
          (case xpwrite (fd0 s1) data len (head s1 - offset0 s1) k1 of
             Inl e \<Rightarrow> Inl e
           | Inr k2 \<Rightarrow> Inr (s1\<lparr>head := head s1 + len\<rparr>, k2)))"

text \<open>The result of a read is the flag returned and the bytes stored into \<open>data\<close>.
  \<open>read_current\<close> is the end of \<open>_vte_file_stream_read\<close>, the read from \<open>fd[0]\<close>
  that both of its paths reach.\<close>

definition read_current ::
  "VteFileStream \<Rightarrow> gsize \<Rightarrow> gsize \<Rightarrow> string \<Rightarrow> sys \<Rightarrow> (bool \<times> string) \<times> sys" where
  "read_current s offset len buf k =
     (case xpread (fd0 s) len (offset - offset0 s) k of
        (bs, k') \<Rightarrow> ((len - of_nat (length bs) = 0, buf @ bs), k'))"

definition vte_file_stream_read ::
  "VteFileStream \<Rightarrow> gsize \<Rightarrow> gsize \<Rightarrow> sys \<Rightarrow> (bool \<times> string) \<times> sys" where
  "vte_file_stream_read s offset len k =
     (if offset < offset1 s then ((False, []), k)
      else if offset < offset0 s then
        (case xpread (fd1 s) len (offset - offset1 s) k of
           (bs, k') \<Rightarrow>
             (let l = of_nat (length bs) in
              if len - l = 0 then ((True, bs), k')
              else read_current s (offset + l) (len - l) bs k'))
      else read_current s offset len [] k)"

definition vte_file_stream_swap_fds :: "VteFileStream \<Rightarrow> VteFileStream" where
  "vte_file_stream_swap_fds s = s\<lparr>fd0 := fd1 s, fd1 := fd0 s\<rparr>"

definition vte_file_stream_truncate :: "VteFileStream \<Rightarrow> gsize \<Rightarrow> sys \<Rightarrow> VteFileStream \<times> sys" where
  "vte_file_stream_truncate s offset k =
     (case (if offset < offset1 s
            then (s\<lparr>offset1 := offset\<rparr>, xtruncate (fd1 s) 0 k) else (s, k)) of
        (s1, k1) \<Rightarrow>
          (case (if offset < offset0 s1
                 then (vte_file_stream_swap_fds (s1\<lparr>offset0 := offset1 s1\<rparr>),
                       xtruncate (fd0 s1) 0 k1)
                 else (s1, xtruncate (fd0 s1) (offset - offset0 s1) k1)) of
             (s2, k2) \<Rightarrow> (s2\<lparr>head := offset\<rparr>, k2)))"

definition vte_file_stream_new_page :: "VteFileStream \<Rightarrow> sys \<Rightarrow> VteFileStream \<times> sys" where
  "vte_file_stream_new_page s k =
     (let s1 = s\<lparr>offset1 := offset0 s\<rparr>;
          s2 = s1\<lparr>offset0 := head s1\<rparr>;
          s3 = vte_file_stream_swap_fds s2
      in (s3, xtruncate (fd0 s3) 0 k))"

definition vte_file_stream_head :: "VteFileStream \<Rightarrow> gsize" where
  "vte_file_stream_head s = head s"

text \<open>\<open>write_current\<close> is the end of \<open>_vte_file_stream_write_contents\<close>: the seek in
  \<open>fd[0]\<close> and the copy of the rest of that file.\<close>

definition write_current :: "VteFileStream \<Rightarrow> gsize \<Rightarrow> sys \<Rightarrow> bool \<times> sys" where
  "write_current s offset k =
     xwrite_contents (fd0 s) (sys_lseek (fd0 s) (offset - offset0 s) k)"

definition vte_file_stream_write_contents ::
  "VteFileStream \<Rightarrow> gsize \<Rightarrow> sys \<Rightarrow> bool \<times> sys" where
  "vte_file_stream_write_contents s offset k =
     (if offset < offset1 s then (False, k)
      else if offset < offset0 s then
        (case xwrite_contents (fd1 s) (sys_lseek (fd1 s) (offset - offset1 s) k) of
           (ok, k') \<Rightarrow> if \<not> ok then (False, k') else write_current s (offset0 s) k')
      else write_current s offset k)"

subsection \<open>Sequences of operations\<close>

text \<open>The operations of the stream class. \<open>Append data\<close> passes the length of \<open>data\<close>;
  the values returned by \<open>Read\<close>, \<open>Head\<close> and \<open>WriteContentsFrom\<close> are dropped.\<close>

datatype operation =
  Reset gsize
  | Append string
  | Read gsize gsize
  | Truncate gsize
  | Rotate
  | Head
  | WriteContentsFrom gsize

fun step :: "operation \<Rightarrow> VteFileStream \<times> sys \<Rightarrow> error + VteFileStream \<times> sys" where
  "step (Reset offset) (s, k) = Inr (vte_file_stream_reset s offset k)"
| "step (Append data) (s, k) = vte_file_stream_append s data (of_nat (length data)) k"
| "step (Read offset len) (s, k) = Inr (s, snd (vte_file_stream_read s offset len k))"
| "step (Truncate offset) (s, k) = Inr (vte_file_stream_truncate s offset k)"
| "step Rotate (s, k) = Inr (vte_file_stream_new_page s k)"
| "step Head (s, k) = Inr (s, k)"
| "step (WriteContentsFrom offset) (s, k) =
     Inr (s, snd (vte_file_stream_write_contents s offset k))"

fun run :: "operation list \<Rightarrow> VteFileStream \<times> sys \<Rightarrow> error + VteFileStream \<times> sys" where
  "run [] w = Inr w"
| "run (x # xs) w = (case step x w of Inl e \<Rightarrow> Inl e | Inr w' \<Rightarrow> run xs w')"

text \<open>A system in which nothing has happened yet, with the events to come.\<close>

definition boot :: "event list \<Rightarrow> sys" where
  "boot es = \<lparr>files = (\<lambda>fd. []), seekpos = (\<lambda>fd. 0), created = 0, script = es,
              journal = [], sink = []\<rparr>"

subsection \<open>Notions used to state the properties\<close>

text \<open>What a caller sees of a read: the flag and the bytes delivered.\<close>

definition read_at :: "VteFileStream \<times> sys \<Rightarrow> gsize \<Rightarrow> gsize \<Rightarrow> bool \<times> string" where
  "read_at w offset len = fst (vte_file_stream_read (fst w) offset len (snd w))"

text \<open>The order of the three offsets that the data model asks for.\<close>

definition offsets_ordered :: "VteFileStream \<Rightarrow> bool" where
  "offsets_ordered s = (offset1 s \<le> offset0 s \<and> offset0 s \<le> head s)"

text \<open>An event that no retrying wrapper gives up on: an interruption, or a transfer
  that moves at least one byte.\<close>

fun harmless :: "event \<Rightarrow> bool" where
  "harmless (Fail e) = (e = EINTR)"
| "harmless (Transfer n) = (0 < n)"

text \<open>An append fits when \<open>head + len\<close> does not wrap around; \<open>fitting ops w\<close> says so
  of every append met while \<open>ops\<close> runs from \<open>w\<close>.\<close>

fun fits :: "operation \<Rightarrow> VteFileStream \<times> sys \<Rightarrow> bool" where
  "fits (Append data) (s, k) = (unat (head s) + length data < 2 ^ 64)"
| "fits x (s, k) = True"

fun fitting :: "operation list \<Rightarrow> VteFileStream \<times> sys \<Rightarrow> bool" where
  "fitting [] w = True"
| "fitting (x # xs) w =
     (fits x w \<and> (case step x w of Inl e \<Rightarrow> True | Inr w' \<Rightarrow> fitting xs w'))"



text \<open>The trace of the specification's example.\<close>

definition example_trace :: "operation list" where
  "example_trace = [Append ''AAAA'', Rotate, Append ''BBBB'', Rotate, Append ''CCCC'']"

text \<open>The state of a stream onto which \<open>acc\<close> has been appended since it was reset
  to \<open>base\<close>, in a system whose remaining events are harmless.\<close>

definition appended :: "gsize \<Rightarrow> string \<Rightarrow> VteFileStream \<times> sys \<Rightarrow> bool" where
  "appended base acc w =
     (case w of (s, k) \<Rightarrow>
        list_all harmless (script k) \<and> offset0 s = base \<and> offset1 s = base
        \<and> head s = base + of_nat (length acc)
        \<and> (if fd0 s = 0 then acc = [] else files k (fd0 s) = acc))"

text \<open>A stream with two generations, "AAAA" at offsets 0 to 3 in file 3 and "BBBB" at
  offsets 4 to 7 in file 4, as \<open>append "AAAA"\<close>, \<open>rotate\<close>, \<open>append "BBBB"\<close> leave it.\<close>

definition sample_stream :: VteFileStream where
  "sample_stream = \<lparr>fd0 = 4, fd1 = 3, offset0 = 4, offset1 = 0, head = 8\<rparr>"

definition sample_sys :: "event list \<Rightarrow> sys" where
  "sample_sys es = \<lparr>files = (\<lambda>fd. [])(3 := ''AAAA'', 4 := ''BBBB''), seekpos = (\<lambda>fd. 0),
                    created = 2, script = es, journal = [], sink = []\<rparr>"

text \<open>A trace that uses every operation.\<close>

definition mixed_trace :: "operation list" where
  "mixed_trace = [Append ''AAAA'', Rotate, Append ''BBBB'', Read 0 8, Truncate 2, Head,
                  WriteContentsFrom 0, Reset 7, Append ''C'']"

text \<open>The handles of a stream are distinct descriptors that \<open>_vte_mkstemp\<close> has returned,
  or 0.\<close>

definition handles_ok :: "VteFileStream \<times> sys \<Rightarrow> bool" where
  "handles_ok w =
     (case w of (s, k) \<Rightarrow>
        (fd0 s = 0 \<or> 3 \<le> fd0 s \<and> fd0 s < int (created k) + 3)
        \<and> (fd1 s = 0 \<or> 3 \<le> fd1 s \<and> fd1 s < int (created k) + 3)
        \<and> (fd0 s \<noteq> fd1 s \<or> fd0 s = 0))"

text \<open>An operation is quiet when it appends no byte and does not truncate to an offset
  beyond \<open>head\<close>; \<open>quietly ops w\<close> says so of every operation met while \<open>ops\<close> runs
  from \<open>w\<close>.\<close>

fun quiet :: "operation \<Rightarrow> VteFileStream \<times> sys \<Rightarrow> bool" where
  "quiet (Append data) (s, k) = (data = [])"
| "quiet (Truncate offset) (s, k) = (offset \<le> head s)"
| "quiet x (s, k) = True"

fun quietly :: "operation list \<Rightarrow> VteFileStream \<times> sys \<Rightarrow> bool" where
  "quietly [] w = True"
| "quietly (x # xs) w =
     (quiet x w \<and> (case step x w of Inl e \<Rightarrow> True | Inr w' \<Rightarrow> quietly xs w'))"

text \<open>A stream that holds nothing: the three offsets agree and the stores it has are
  empty.\<close>

definition drained :: "VteFileStream \<times> sys \<Rightarrow> bool" where
  "drained w =
     (case w of (s, k) \<Rightarrow>
        offset1 s = offset0 s \<and> offset0 s = head s
        \<and> (fd0 s \<noteq> 0 \<longrightarrow> files k (fd0 s) = [])
        \<and> (fd1 s \<noteq> 0 \<longrightarrow> files k (fd1 s) = []))"

text \<open>A trace of quiet operations.\<close>

definition quiet_trace :: "operation list" where
  "quiet_trace = [Rotate, Read 5 1, Truncate 3, Head, WriteContentsFrom 0, Append [],
                  Reset 4, Truncate 4]"

section \<open>Evaluation on concrete inputs\<close>

lemmas sys_eval = xtruncate.simps xpwrite_loop.simps xpread_loop.simps xpread_def xpwrite_def
  sys_ftruncate_def sys_pwrite_def sys_pread_def commit_write_def interrupted_def vte_mkstemp_def
  allocation_fails_def resize_def write_at_def boot_def

lemmas stream_eval = vte_file_stream_new_def vte_file_stream_ensure_fd0_def
  vte_file_stream_reset_def vte_file_stream_append_def read_current_def vte_file_stream_read_def
  vte_file_stream_swap_fds_def vte_file_stream_truncate_def vte_file_stream_new_page_def
  read_at_def example_trace_def Let_def

section \<open>The wrappers under harmless events\<close>

lemma xtruncate_eq:
  "xtruncate fd offset k =
     (if fd = 0 then k
      else if 2 ^ 63 \<le> unat offset
        then k\<lparr>journal := journal k @ [Refused fd (unat offset)]\<rparr>
      else k\<lparr>script := dropWhile (\<lambda>e. e = Fail EINTR) (script k),
             files := (files k)(fd := resize (files k fd) (unat offset)),
             journal := journal k @ [Resized fd (unat offset)]\<rparr>)"
proof (induction fd offset k rule: xtruncate.induct)
  case (1 fd offset k)
  show ?case
  proof (cases "fd \<noteq> 0 \<and> \<not> 2 ^ 63 \<le> unat offset \<and> interrupted k")
    case True
    then obtain es where es: "script k = Fail EINTR # es"
      by (auto simp: interrupted_def split: list.splits)
    with True have call: "sys_ftruncate fd offset k = (Some EINTR, k\<lparr>script := es\<rparr>)"
      by (simp add: sys_ftruncate_def)
    from True have "fd \<noteq> 0" by simp
    from 1 [OF this call [symmetric] refl refl] True
    have "xtruncate fd offset (k\<lparr>script := es\<rparr>) =
        k\<lparr>script := dropWhile (\<lambda>e. e = Fail EINTR) es,
          files := (files k)(fd := resize (files k fd) (unat offset)),
          journal := journal k @ [Resized fd (unat offset)]\<rparr>"
      by simp
    with True call es show ?thesis
      by (subst xtruncate.simps) simp
  next
    case False
    then show ?thesis
      by (subst xtruncate.simps) (auto simp: sys_ftruncate_def interrupted_def split: list.splits)
  qed
qed

lemma sys_pread_files: "sys_pread fd len offset k = (r, k') \<Longrightarrow> files k' = files k"
  by (auto simp: sys_pread_def split: list.splits event.splits)

lemma xpread_loop_empty:
  "files k fd = [] \<Longrightarrow> fst (xpread_loop fd len offset buf k) = buf"
proof (induction fd len offset buf k rule: xpread_loop.induct)
  case (1 fd len offset buf k)
  show ?case
  proof (cases "len = 0")
    case True
    then show ?thesis by (subst xpread_loop.simps) simp
  next
    case False
    show ?thesis
    proof (cases "sys_pread fd len offset k")
      case (Pair r k')
      with 1(3) sys_pread_files [OF Pair] have same: "files k' fd = []"
        by simp
      show ?thesis
      proof (cases r)
        case (Inl e)
        show ?thesis
        proof (cases "e = EINTR")
          case True
          from 1(1) [OF False Pair [symmetric] Inl True same] Pair Inl True False
          show ?thesis
            by (subst xpread_loop.simps) simp
        next
          case neq: False
          with Pair Inl False show ?thesis
            by (subst xpread_loop.simps) simp
        qed
      next
        case (Inr bs)
        with Pair 1(3) have "bs = []"
          by (auto simp: sys_pread_def split: list.splits event.splits)
        with Inr Pair show ?thesis
          by (subst xpread_loop.simps) simp
      qed
    qed
  qed
qed

lemma unat_add_of_nat:
  fixes offset :: gsize
  assumes "unat offset + n < 2 ^ 64"
  shows "unat (offset + of_nat n) = unat offset + n"
proof -
  from assms have n: "unat (of_nat n :: gsize) = n"
    by (simp add: unat_of_nat)
  with assms have "unat offset + unat (of_nat n :: gsize) < 2 ^ LENGTH(64)"
    by simp
  then have "unat (offset + of_nat n) = unat offset + unat (of_nat n :: gsize)"
    by (simp only: unat_add_lem)
  with n show ?thesis by simp
qed

lemma take_take_rest:
  "n \<le> m \<Longrightarrow>
   take n x @ take (m - length (take n x)) (drop (length (take n x)) x) = take m x"
proof -
  assume le: "n \<le> m"
  have "take m x = take (length (take n x) + (m - length (take n x))) x"
    using le by simp
  also have "\<dots> = take (length (take n x)) x @ take (m - length (take n x)) (drop (length (take n x)) x)"
    by (rule take_add)
  also have "take (length (take n x)) x = take n x"
    by (simp add: min_def)
  finally show ?thesis by simp
qed

lemma sys_pread_harmless:
  assumes "list_all harmless (script k)" "len \<noteq> 0" "sys_pread fd len offset k = (r, k')"
  shows "files k' = files k \<and> list_all harmless (script k') \<and>
         (r = Inl EINTR \<or>
          (\<exists>n. 0 < n \<and> n \<le> unat len \<and> r = Inr (take n (drop (unat offset) (files k fd)))))"
proof (cases "script k")
  case Nil
  with assms show ?thesis
    by (auto simp: sys_pread_def unat_gt_0 intro!: exI [of _ "unat len"])
next
  case (Cons e es)
  show ?thesis
  proof (cases e)
    case (Fail x)
    with Cons assms show ?thesis
      by (auto simp: sys_pread_def)
  next
    case (Transfer m)
    with Cons assms show ?thesis
      by (auto simp: sys_pread_def unat_gt_0 intro!: exI [of _ "min m (unat len)"])
  qed
qed

lemma xpread_loop_harmless:
  "list_all harmless (script k) \<Longrightarrow> unat offset + unat len < 2 ^ 64 \<Longrightarrow>
   fst (xpread_loop fd len offset buf k) = buf @ take (unat len) (drop (unat offset) (files k fd))
   \<and> files (snd (xpread_loop fd len offset buf k)) = files k
   \<and> list_all harmless (script (snd (xpread_loop fd len offset buf k)))"
proof (induction fd len offset buf k rule: xpread_loop.induct)
  case (1 fd len offset buf k)
  show ?case
  proof (cases "len = 0")
    case True
    with 1(3) show ?thesis by (subst (1 2 3) xpread_loop.simps) simp
  next
    case False
    show ?thesis
    proof (cases "sys_pread fd len offset k")
      case (Pair r k')
      from sys_pread_harmless [OF 1(3) False Pair]
      have files: "files k' = files k" and script: "list_all harmless (script k')"
        and r: "r = Inl EINTR \<or>
          (\<exists>n. 0 < n \<and> n \<le> unat len \<and> r = Inr (take n (drop (unat offset) (files k fd))))"
        by simp_all
      from r show ?thesis
      proof
        assume eintr: "r = Inl EINTR"
        from 1(1) [OF False Pair [symmetric] eintr refl script 1(4)] files
        have "fst (xpread_loop fd len offset buf k') =
                buf @ take (unat len) (drop (unat offset) (files k fd))
              \<and> files (snd (xpread_loop fd len offset buf k')) = files k
              \<and> list_all harmless (script (snd (xpread_loop fd len offset buf k')))"
          by simp
        moreover from False Pair eintr
        have "xpread_loop fd len offset buf k = xpread_loop fd len offset buf k'"
          by (subst xpread_loop.simps) simp
        ultimately show ?thesis by simp
      next
        assume "\<exists>n. 0 < n \<and> n \<le> unat len \<and> r = Inr (take n (drop (unat offset) (files k fd)))"
        then obtain n where n: "0 < n" "n \<le> unat len"
          and rn: "r = Inr (take n (drop (unat offset) (files k fd)))"
          by blast
        define x where "x = drop (unat offset) (files k fd)"
        define bs where "bs = take n x"
        have rbs: "r = Inr bs" by (simp add: rn bs_def x_def)
        show ?thesis
        proof (cases "bs = []")
          case True
          with n have "x = []" by (simp add: bs_def)
          with True False Pair rbs script files show ?thesis
            by (subst (1 2 3) xpread_loop.simps) (simp add: x_def)
        next
          case nonempty: False
          have le: "length bs \<le> unat len"
            using n by (simp add: bs_def)
          have len': "unat (len - of_nat (length bs)) = unat len - length bs"
            by (rule unat_sub_of_nat [OF le])
          have off': "unat (offset + of_nat (length bs)) = unat offset + length bs"
            using le 1(4) by (intro unat_add_of_nat) simp
          have bound: "unat (offset + of_nat (length bs)) + unat (len - of_nat (length bs)) < 2 ^ 64"
            using le 1(4) by (simp add: len' off')
          from 1(2) [OF False Pair [symmetric] rbs nonempty script bound] files
          have ih: "fst (xpread_loop fd (len - of_nat (length bs)) (offset + of_nat (length bs)) (buf @ bs) k')
                  = (buf @ bs) @ take (unat len - length bs) (drop (unat offset + length bs) (files k fd))"
            and ih2: "files (snd (xpread_loop fd (len - of_nat (length bs)) (offset + of_nat (length bs)) (buf @ bs) k')) = files k"
            and ih3: "list_all harmless (script (snd (xpread_loop fd (len - of_nat (length bs)) (offset + of_nat (length bs)) (buf @ bs) k')))"
            by (simp_all add: len' off')
          have "drop (unat offset + length bs) (files k fd) = drop (length bs) x"
            by (simp add: x_def add.commute)
          then have "bs @ take (unat len - length bs) (drop (unat offset + length bs) (files k fd))
                = take (unat len) x"
            using take_take_rest [OF n(2), of x] by (simp add: bs_def)
          with ih have res: "fst (xpread_loop fd (len - of_nat (length bs)) (offset + of_nat (length bs)) (buf @ bs) k')
                  = buf @ take (unat len) (drop (unat offset) (files k fd))"
            by (simp add: x_def)
          from False Pair rbs nonempty
          have "xpread_loop fd len offset buf k =
                xpread_loop fd (len - of_nat (length bs)) (offset + of_nat (length bs)) (buf @ bs) k'"
            by (subst xpread_loop.simps) simp
          with res ih2 ih3 show ?thesis by simp
        qed
      qed
    qed
  qed
qed

lemma length_resize: "length (resize f n) = n"
  by (simp add: resize_def)

lemma write_at_append:
  "write_at (write_at f p a) (p + length a) b = write_at f p (a @ b)"
proof (cases "a = [] \<or> b = []")
  case True
  then show ?thesis by (auto simp: write_at_def)
next
  case False
  define g where "g = resize f p @ a @ drop (p + length a) f"
  have "resize g (p + length a) = resize f p @ a"
    by (simp add: g_def resize_def)
  moreover have "drop (p + length a + length b) g = drop (p + length a + length b) f"
    by (simp add: g_def length_resize add.commute add.left_commute)
  ultimately show ?thesis
    using False by (simp add: write_at_def g_def [symmetric] add.assoc)
qed

lemma sys_pwrite_harmless:
  assumes "list_all harmless (script k)" "len \<noteq> 0" "sys_pwrite fd data len offset k = (r, k')"
  shows "list_all harmless (script k') \<and> created k' = created k \<and>
         ((r = Inl EINTR \<and> files k' = files k) \<or>
          (\<exists>n. 0 < n \<and> n \<le> unat len \<and> r = Inr n \<and>
             files k' = (files k)(fd := write_at (files k fd) (unat offset) (take n data))))"
proof (cases "script k")
  case Nil
  with assms show ?thesis
    by (auto simp: sys_pwrite_def commit_write_def unat_gt_0 unat_0_iff)
next
  case (Cons e es)
  show ?thesis
  proof (cases e)
    case (Fail x)
    with Cons assms show ?thesis
      by (auto simp: sys_pwrite_def)
  next
    case (Transfer m)
    with Cons assms have "min m (unat len) \<noteq> 0"
      by (simp add: unat_gt_0)
    with Transfer Cons assms show ?thesis
      by (auto simp: sys_pwrite_def commit_write_def)
  qed
qed

lemma xpwrite_loop_harmless:
  "list_all harmless (script k) \<Longrightarrow> unat offset + unat len < 2 ^ 64 \<Longrightarrow>
   unat len \<le> length data \<Longrightarrow>
   files (xpwrite_loop fd data len offset truncated k) =
     (files k)(fd := write_at (files k fd) (unat offset) (take (unat len) data))
   \<and> list_all harmless (script (xpwrite_loop fd data len offset truncated k))
   \<and> created (xpwrite_loop fd data len offset truncated k) = created k"
proof (induction fd data len offset truncated k rule: xpwrite_loop.induct)
  case (1 fd data len offset truncated k)
  show ?case
  proof (cases "len = 0")
    case True
    with 1(4) show ?thesis
      by (subst (1 2 3) xpwrite_loop.simps) (simp add: write_at_def)
  next
    case False
    show ?thesis
    proof (cases "sys_pwrite fd data len offset k")
      case (Pair r k')
      from sys_pwrite_harmless [OF 1(4) False Pair]
      have script: "list_all harmless (script k')" and created: "created k' = created k"
        and r: "(r = Inl EINTR \<and> files k' = files k) \<or>
          (\<exists>n. 0 < n \<and> n \<le> unat len \<and> r = Inr n \<and>
             files k' = (files k)(fd := write_at (files k fd) (unat offset) (take n data)))"
        by simp_all
      from r show ?thesis
      proof
        assume eintr: "r = Inl EINTR \<and> files k' = files k"
        then have fk: "files k' = files k" and rl: "r = Inl EINTR" by simp_all
        have ih: "files (xpwrite_loop fd data len offset truncated k') =
                (files k')(fd := write_at (files k' fd) (unat offset) (take (unat len) data))
              \<and> list_all harmless (script (xpwrite_loop fd data len offset truncated k'))
              \<and> created (xpwrite_loop fd data len offset truncated k') = created k'"
          by (rule 1(1) [OF False Pair [symmetric] rl refl script 1(5) 1(6)])
        from False Pair rl
        have "xpwrite_loop fd data len offset truncated k =
              xpwrite_loop fd data len offset truncated k'"
          by (subst xpwrite_loop.simps) simp
        with ih show ?thesis
          by (simp only: fk created)
      next
        assume "\<exists>n. 0 < n \<and> n \<le> unat len \<and> r = Inr n \<and>
             files k' = (files k)(fd := write_at (files k fd) (unat offset) (take n data))"
        then obtain n where n: "0 < n" "n \<le> unat len" and rn: "r = Inr n"
          and files: "files k' = (files k)(fd := write_at (files k fd) (unat offset) (take n data))"
          by blast
        have len': "unat (len - of_nat n) = unat len - n"
          by (rule unat_sub_of_nat [OF n(2)])
        have off': "unat (offset + of_nat n) = unat offset + n"
          using n 1(5) by (intro unat_add_of_nat) simp
        have bound: "unat (offset + of_nat n) + unat (len - of_nat n) < 2 ^ 64"
          using n 1(5) by (simp add: len' off')
        have fit: "unat (len - of_nat n) \<le> length (drop n data)"
          using n 1(6) by (simp add: len')
        from n have nz: "n \<noteq> 0" by simp
        note ih0 = 1(3) [OF False Pair [symmetric] rn nz script bound fit, unfolded len' off']
        note ih = conjunct1 [OF ih0]
        note ih2 = conjunct1 [OF conjunct2 [OF ih0]]
        note ih3 = conjunct2 [OF conjunct2 [OF ih0]]
        have ln: "min (length data) n = n"
          using n 1(6) by simp
        have "write_at (write_at (files k fd) (unat offset) (take n data)) (unat offset + n)
                (take (unat len - n) (drop n data))
              = write_at (files k fd) (unat offset) (take n data @ take (unat len - n) (drop n data))"
          using write_at_append [of "files k fd" "unat offset" "take n data"
              "take (unat len - n) (drop n data)"] by (simp add: ln)
        also have "take n data @ take (unat len - n) (drop n data) = take (unat len) data"
          using n by (simp flip: take_add)
        finally have w: "write_at (files k' fd) (unat offset + n) (take (unat len - n) (drop n data))
              = write_at (files k fd) (unat offset) (take (unat len) data)"
          by (simp add: files)
        have "files (xpwrite_loop fd (drop n data) (len - of_nat n) (offset + of_nat n) truncated k') =
                (files k)(fd := write_at (files k fd) (unat offset) (take (unat len) data))"
          unfolding ih w by (simp add: files)
        moreover from False Pair rn nz
        have "xpwrite_loop fd data len offset truncated k =
              xpwrite_loop fd (drop n data) (len - of_nat n) (offset + of_nat n) truncated k'"
          by (subst xpwrite_loop.simps) simp
        ultimately show ?thesis
          using ih2 ih3 created by simp
      qed
    qed
  qed
qed

section \<open>Appending after a reset\<close>

lemma list_all_dropWhile: "list_all P xs \<Longrightarrow> list_all P (dropWhile Q xs)"
  by (induction xs) auto

lemma reset_appended:
  assumes "list_all harmless (script k)"
  shows "appended base [] (vte_file_stream_reset s base k)"
  using assms
  by (simp add: appended_def vte_file_stream_reset_def xtruncate_eq resize_def Let_def
      list_all_dropWhile)

lemma ensure_fd0_harmless:
  assumes "list_all harmless (script k)" "fd0 s = 0"
  shows "vte_file_stream_ensure_fd0 s k =
           (s\<lparr>fd0 := int (created k) + 3\<rparr>,
            k\<lparr>files := (files k)(int (created k) + 3 := []), created := Suc (created k),
              journal := journal k @ [Created (int (created k) + 3)]\<rparr>)"
proof -
  from assms(1) have "\<not> allocation_fails k"
    by (cases "script k") (auto simp: allocation_fails_def split: event.splits)
  with assms(2) show ?thesis
    by (simp add: vte_file_stream_ensure_fd0_def vte_mkstemp_def Let_def)
qed

lemma write_at_end: "write_at acc (length acc) d = acc @ d"
  by (simp add: write_at_def resize_def)

lemma unat_of_nat_len:
  "n < 2 ^ 64 \<Longrightarrow> unat (of_nat n :: gsize) = n"
  by (simp add: unat_of_nat)

lemma append_appended:
  assumes inv: "appended base acc (s, k)" and fit: "length acc + length d < 2 ^ 64"
  shows "\<exists>w'. vte_file_stream_append s d (of_nat (length d)) k = Inr w'
              \<and> appended base (acc @ d) w'"
proof -
  obtain s1 k1 where e: "vte_file_stream_ensure_fd0 s k = (s1, k1)"
    by (cases "vte_file_stream_ensure_fd0 s k")
  from inv have harmless: "list_all harmless (script k)" by (simp add: appended_def)
  have s1: "fd0 s1 \<noteq> 0 \<and> offset0 s1 = base \<and> offset1 s1 = base
        \<and> head s1 = base + of_nat (length acc) \<and> files k1 (fd0 s1) = acc
        \<and> list_all harmless (script k1)"
  proof (cases "fd0 s = 0")
    case True
    with inv e ensure_fd0_harmless [OF harmless True] show ?thesis
      by (auto simp: appended_def)
  next
    case False
    with inv e show ?thesis
      by (auto simp: appended_def vte_file_stream_ensure_fd0_def)
  qed
  have pos: "head s1 - offset0 s1 = of_nat (length acc)"
    using s1 by simp
  have upos: "unat (of_nat (length acc) :: gsize) = length acc"
    using fit by (intro unat_of_nat_len) simp
  have ulen: "unat (of_nat (length d) :: gsize) = length d"
    using fit by (intro unat_of_nat_len) simp
  define k2 where "k2 = xpwrite_loop (fd0 s1) d (of_nat (length d)) (of_nat (length acc)) False k1"
  have "files k2 = (files k1)(fd0 s1 := write_at (files k1 (fd0 s1)) (length acc) (take (length d) d))
      \<and> list_all harmless (script k2) \<and> created k2 = created k1"
    using xpwrite_loop_harmless [of k1 "of_nat (length acc)" "of_nat (length d)" d "fd0 s1" False]
      s1 fit unfolding k2_def upos ulen by simp
  then have k2: "files k2 (fd0 s1) = acc @ d" "list_all harmless (script k2)"
    using s1 by (simp_all add: write_at_end)
  have "vte_file_stream_append s d (of_nat (length d)) k
        = Inr (s1\<lparr>head := head s1 + of_nat (length d)\<rparr>, k2)"
    using e s1 by (simp add: vte_file_stream_append_def xpwrite_def pos k2_def)
  moreover have "appended base (acc @ d) (s1\<lparr>head := head s1 + of_nat (length d)\<rparr>, k2)"
    using s1 k2 by (simp add: appended_def)
  ultimately show ?thesis by blast
qed

lemma run_appended:
  "appended base acc w \<Longrightarrow> length acc + sum_list (map length ds) < 2 ^ 64 \<Longrightarrow>
   \<exists>w'. run (map Append ds) w = Inr w' \<and> appended base (acc @ concat ds) w'"
proof (induction ds arbitrary: acc w)
  case Nil
  then show ?case by simp
next
  case (Cons d ds)
  obtain s k where w: "w = (s, k)" by (cases w)
  from Cons.prems have fit: "length acc + length d < 2 ^ 64" by simp
  from append_appended [OF Cons.prems(1) [unfolded w] fit]
  obtain w1 where w1: "vte_file_stream_append s d (of_nat (length d)) k = Inr w1"
    and inv1: "appended base (acc @ d) w1"
    by blast
  from Cons.prems have "length (acc @ d) + sum_list (map length ds) < 2 ^ 64" by simp
  from Cons.IH [OF inv1 this] w w1 show ?case by simp
qed

lemma read_appended:
  assumes inv: "appended base acc w" and fit: "length acc < 2 ^ 64"
  shows "read_at w base (of_nat (length acc)) = (True, acc)"
proof -
  obtain s k where w: "w = (s, k)" by (cases w)
  have ulen: "unat (of_nat (length acc) :: gsize) = length acc"
    using fit by (rule unat_of_nat_len)
  from inv w have harmless: "list_all harmless (script k)" by (simp add: appended_def)
  have bytes: "fst (xpread (fd0 s) (of_nat (length acc)) 0 k) = acc"
  proof (cases "fd0 s = 0")
    case True
    with inv w have "acc = []" by (simp add: appended_def)
    then show ?thesis
      by (simp add: xpread_def xpread_loop.simps)
  next
    case False
    with inv w have "files k (fd0 s) = acc" by (simp add: appended_def)
    with False xpread_loop_harmless [OF harmless, of 0 "of_nat (length acc)" "fd0 s" "[]"] fit
    show ?thesis
      by (simp add: xpread_def ulen)
  qed
  from inv w have "offset0 s = base" "offset1 s = base" by (simp_all add: appended_def)
  with bytes w show ?thesis
    by (cases "xpread (fd0 s) (of_nat (length acc)) 0 k")
       (simp add: read_at_def vte_file_stream_read_def read_current_def)
qed

section \<open>Reading the previous generation\<close>


section \<open>The order of the offsets\<close>

lemma ordered_reset: "offsets_ordered (fst (vte_file_stream_reset s offset k))"
  by (simp add: offsets_ordered_def vte_file_stream_reset_def Let_def)

lemma append_head:
  "vte_file_stream_append s data len k = Inr (s', k') \<Longrightarrow>
   head s' = head s + len \<and> offset0 s' = offset0 s \<and> offset1 s' = offset1 s"
  by (auto simp: vte_file_stream_append_def vte_file_stream_ensure_fd0_def
      split: prod.splits sum.splits if_splits)

lemma ordered_append:
  assumes "offsets_ordered s" and "unat (head s) + length data < 2 ^ 64"
    and "vte_file_stream_append s data (of_nat (length data)) k = Inr (s', k')"
  shows "offsets_ordered s'"
proof -
  from assms(2) have "unat (of_nat (length data) :: gsize) = length data"
    by (intro unat_of_nat_len) simp
  with assms(2) have "unat (head s) + unat (of_nat (length data) :: gsize) < 2 ^ LENGTH(64)"
    by simp
  then have "head s \<le> head s + of_nat (length data)"
    by (simp only: no_olen_add_nat)
  with assms(1) append_head [OF assms(3)] show ?thesis
    by (auto simp: offsets_ordered_def)
qed

lemma ordered_truncate:
  "offsets_ordered s \<Longrightarrow> offsets_ordered (fst (vte_file_stream_truncate s offset k))"
  by (auto simp: offsets_ordered_def vte_file_stream_truncate_def vte_file_stream_swap_fds_def
      not_less)

lemma ordered_new_page:
  "offsets_ordered s \<Longrightarrow> offsets_ordered (fst (vte_file_stream_new_page s k))"
  by (simp add: offsets_ordered_def vte_file_stream_new_page_def vte_file_stream_swap_fds_def
      Let_def)

lemma ordered_step:
  assumes "offsets_ordered (fst w)" and "fits x w" and "step x w = Inr w'"
  shows "offsets_ordered (fst w')"
proof -
  obtain s k where w: "w = (s, k)" by (cases w)
  obtain s' k' where w': "w' = (s', k')" by (cases w')
  show ?thesis
  proof (cases x)
    case (Reset offset)
    with assms w ordered_reset [of s offset k] show ?thesis by auto
  next
    case (Append data)
    with assms w w' ordered_append [of s data k s' k'] show ?thesis by simp
  next
    case (Truncate offset)
    with assms w ordered_truncate [of s offset k] show ?thesis by auto
  next
    case Rotate
    with assms w ordered_new_page [of s k] show ?thesis by auto
  qed (use assms w in auto)
qed

lemma ordered_run:
  "offsets_ordered (fst w) \<Longrightarrow> fitting ops w \<Longrightarrow> run ops w = Inr w' \<Longrightarrow>
   offsets_ordered (fst w')"
proof (induction ops arbitrary: w)
  case Nil
  then show ?case by simp
next
  case (Cons x xs)
  from Cons.prems(3) obtain w1 where w1: "step x w = Inr w1" and rest: "run xs w1 = Inr w'"
    by (auto split: sum.splits)
  from Cons.prems(2) w1 have "fits x w" and "fitting xs w1" by simp_all
  from ordered_step [OF Cons.prems(1) this(1) w1] this(2) rest show ?case
    by (rule Cons.IH)
qed

section \<open>Truncations made by a write\<close>





section \<open>What an append does to head\<close>

text \<open>With a store, or when one can be allocated, an append returns and \<open>head\<close> has
  advanced by \<open>len\<close>, whatever was written: in the example the write fails and nothing is
  stored.\<close>

lemma append_returns:
  assumes "fd0 s \<noteq> 0 \<or> \<not> allocation_fails k \<or> len = 0"
  shows "\<exists>s' k'. vte_file_stream_append s data len k = Inr (s', k') \<and> head s' = head s + len"
  using assms
  by (auto simp: vte_file_stream_append_def vte_file_stream_ensure_fd0_def vte_mkstemp_def
      xpwrite_def Let_def)

lemma append_head_beyond_store:
  "vte_file_stream_append sample_stream ''XY'' 2 (sample_sys [Fail ENOSPC])
     = Inr (sample_stream\<lparr>head := 10\<rparr>, sample_sys [])"
  by (simp add: sample_stream_def sample_sys_def sys_eval stream_eval)

section \<open>The handles of a stream\<close>

lemma sys_pread_created: "sys_pread fd len offset k = (r, k') \<Longrightarrow> created k' = created k"
  by (auto simp: sys_pread_def split: list.splits event.splits)

lemma sys_pwrite_created: "sys_pwrite fd data len offset k = (r, k') \<Longrightarrow> created k' = created k"
  by (auto simp: sys_pwrite_def commit_write_def split: list.splits event.splits if_splits)

lemma xtruncate_created: "created (xtruncate fd offset k) = created k"
  by (simp add: xtruncate_eq)

lemma xpwrite_loop_created: "created (xpwrite_loop fd data len offset truncated k) = created k"
proof (induction fd data len offset truncated k rule: xpwrite_loop.induct)
  case (1 fd data len offset truncated k)
  show ?case
  proof (cases "len = 0")
    case True
    then show ?thesis by (subst xpwrite_loop.simps) simp
  next
    case False
    show ?thesis
    proof (cases "sys_pwrite fd data len offset k")
      case (Pair r k')
      note same = sys_pwrite_created [OF Pair]
      show ?thesis
      proof (cases r)
        case (Inl e)
        show ?thesis
        proof (cases "e = EINTR")
          case True
          from 1(1) [OF False Pair [symmetric] Inl True] same False Pair Inl True
          show ?thesis by (subst xpwrite_loop.simps) simp
        next
          case neq: False
          show ?thesis
          proof (cases "e = EINVAL \<and> \<not> truncated")
            case True
            from 1(2) [OF False Pair [symmetric] Inl neq True] same True neq False Pair Inl
            show ?thesis
              by (subst xpwrite_loop.simps) (simp add: xtruncate_created)
          next
            case stop: False
            with neq same False Pair Inl show ?thesis
              by (subst xpwrite_loop.simps) auto
          qed
        qed
      next
        case (Inr n)
        show ?thesis
        proof (cases "n = 0")
          case True
          with same False Pair Inr show ?thesis by (subst xpwrite_loop.simps) simp
        next
          case nz: False
          from 1(3) [OF False Pair [symmetric] Inr nz] same False Pair Inr nz
          show ?thesis by (subst xpwrite_loop.simps) simp
        qed
      qed
    qed
  qed
qed

lemma xpread_loop_created: "created (snd (xpread_loop fd len offset buf k)) = created k"
proof (induction fd len offset buf k rule: xpread_loop.induct)
  case (1 fd len offset buf k)
  show ?case
  proof (cases "len = 0")
    case True
    then show ?thesis by (subst xpread_loop.simps) simp
  next
    case False
    show ?thesis
    proof (cases "sys_pread fd len offset k")
      case (Pair r k')
      note same = sys_pread_created [OF Pair]
      show ?thesis
      proof (cases r)
        case (Inl e)
        show ?thesis
        proof (cases "e = EINTR")
          case True
          from 1(1) [OF False Pair [symmetric] Inl True] same False Pair Inl True
          show ?thesis by (subst xpread_loop.simps) simp
        next
          case neq: False
          with same False Pair Inl show ?thesis by (subst xpread_loop.simps) simp
        qed
      next
        case (Inr bs)
        show ?thesis
        proof (cases "bs = []")
          case True
          with same False Pair Inr show ?thesis by (subst xpread_loop.simps) simp
        next
          case nz: False
          from 1(2) [OF False Pair [symmetric] Inr nz] same False Pair Inr nz
          show ?thesis by (subst xpread_loop.simps) simp
        qed
      qed
    qed
  qed
qed

lemma xpread_created: "created (snd (xpread fd len offset k)) = created k"
  by (simp add: xpread_def xpread_loop_created)

lemma read_current_created: "created (snd (read_current s offset len buf k)) = created k"
  using xpread_created [of "fd0 s" len "offset - offset0 s" k]
  by (cases "xpread (fd0 s) len (offset - offset0 s) k") (simp add: read_current_def)

lemma read_created: "created (snd (vte_file_stream_read s offset len k)) = created k"
proof (cases "xpread (fd1 s) len (offset - offset1 s) k")
  case (Pair bs k')
  with xpread_created [of "fd1 s" len "offset - offset1 s" k] have "created k' = created k"
    by simp
  with Pair show ?thesis
    by (simp add: vte_file_stream_read_def Let_def read_current_created)
qed

lemma write_contents_created:
  "created (snd (vte_file_stream_write_contents s offset k)) = created k"
  by (auto simp: vte_file_stream_write_contents_def write_current_def xwrite_contents_def
      g_output_stream_splice_def sys_lseek_def Let_def split: list.splits event.splits prod.splits)

lemma handles_append:
  assumes "handles_ok (s, k)" and "vte_file_stream_append s data len k = Inr w'"
  shows "handles_ok w'"
proof -
  obtain s1 k1 where e: "vte_file_stream_ensure_fd0 s k = (s1, k1)"
    by (cases "vte_file_stream_ensure_fd0 s k")
  with assms(1) have ok1: "handles_ok (s1, k1)"
    by (auto simp: handles_ok_def vte_file_stream_ensure_fd0_def vte_mkstemp_def Let_def
        split: if_splits)
  from assms(2) e obtain k2 where
    k2: "xpwrite (fd0 s1) data len (head s1 - offset0 s1) k1 = Inr k2"
    and w': "w' = (s1\<lparr>head := head s1 + len\<rparr>, k2)"
    by (auto simp: vte_file_stream_append_def split: sum.splits)
  from k2 have "created k2 = created k1"
    by (auto simp: xpwrite_def xpwrite_loop_created split: if_splits)
  with ok1 w' show ?thesis
    by (simp add: handles_ok_def)
qed

lemma handles_truncate:
  "handles_ok (s, k) \<Longrightarrow> handles_ok (vte_file_stream_truncate s offset k)"
  by (cases "offset < offset1 s"; cases "offset < offset0 s")
     (auto simp: handles_ok_def vte_file_stream_truncate_def vte_file_stream_swap_fds_def
        xtruncate_created)

lemma handles_step:
  assumes "handles_ok w" and "step x w = Inr w'"
  shows "handles_ok w'"
proof -
  obtain s k where w: "w = (s, k)" by (cases w)
  show ?thesis
  proof (cases x)
    case (Reset offset)
    with assms w show ?thesis
      by (auto simp: handles_ok_def vte_file_stream_reset_def Let_def xtruncate_created)
  next
    case (Append data)
    with assms w handles_append [of s k data "of_nat (length data)" w'] show ?thesis
      by simp
  next
    case (Read offset len)
    with assms w read_created [of s offset len k] show ?thesis
      by (auto simp: handles_ok_def)
  next
    case (Truncate offset)
    with assms w handles_truncate [of s k offset] show ?thesis
      by auto
  next
    case Rotate
    with assms w show ?thesis
      by (auto simp: handles_ok_def vte_file_stream_new_page_def vte_file_stream_swap_fds_def
          Let_def xtruncate_created)
  next
    case Head
    with assms w show ?thesis by auto
  next
    case (WriteContentsFrom offset)
    with assms w write_contents_created [of s offset k] show ?thesis
      by (auto simp: handles_ok_def)
  qed
qed

lemma handles_run:
  "handles_ok w \<Longrightarrow> run ops w = Inr w' \<Longrightarrow> handles_ok w'"
proof (induction ops arbitrary: w)
  case Nil
  then show ?case by simp
next
  case (Cons x xs)
  from Cons.prems(2) obtain w1 where w1: "step x w = Inr w1" and rest: "run xs w1 = Inr w'"
    by (auto split: sum.splits)
  from handles_step [OF Cons.prems(1) w1] rest show ?case
    by (rule Cons.IH)
qed

lemma handles_distinct:
  assumes "run ops (vte_file_stream_new, k) = Inr (s, k')"
  shows "fd0 s \<noteq> fd1 s \<or> fd0 s = 0 \<and> fd1 s = 0"
proof -
  have "handles_ok (vte_file_stream_new, k)"
    by (simp add: handles_ok_def vte_file_stream_new_def)
  from handles_run [OF this assms] show ?thesis
    by (auto simp: handles_ok_def)
qed

section \<open>A stream that holds nothing\<close>

lemma xpread_loop_files: "files (snd (xpread_loop fd len offset buf k)) = files k"
proof (induction fd len offset buf k rule: xpread_loop.induct)
  case (1 fd len offset buf k)
  show ?case
  proof (cases "len = 0")
    case True
    then show ?thesis by (subst xpread_loop.simps) simp
  next
    case False
    show ?thesis
    proof (cases "sys_pread fd len offset k")
      case (Pair r k')
      note same = sys_pread_files [OF Pair]
      show ?thesis
      proof (cases r)
        case (Inl e)
        show ?thesis
        proof (cases "e = EINTR")
          case True
          from 1(1) [OF False Pair [symmetric] Inl True] same False Pair Inl True
          show ?thesis by (subst xpread_loop.simps) simp
        next
          case neq: False
          with same False Pair Inl show ?thesis by (subst xpread_loop.simps) simp
        qed
      next
        case (Inr bs)
        show ?thesis
        proof (cases "bs = []")
          case True
          with same False Pair Inr show ?thesis by (subst xpread_loop.simps) simp
        next
          case nz: False
          from 1(2) [OF False Pair [symmetric] Inr nz] same False Pair Inr nz
          show ?thesis by (subst xpread_loop.simps) simp
        qed
      qed
    qed
  qed
qed

lemma xpread_files: "files (snd (xpread fd len offset k)) = files k"
  by (simp add: xpread_def xpread_loop_files)

lemma read_current_files: "files (snd (read_current s offset len buf k)) = files k"
  using xpread_files [of "fd0 s" len "offset - offset0 s" k]
  by (cases "xpread (fd0 s) len (offset - offset0 s) k") (simp add: read_current_def)

lemma read_files: "files (snd (vte_file_stream_read s offset len k)) = files k"
proof (cases "xpread (fd1 s) len (offset - offset1 s) k")
  case (Pair bs k')
  with xpread_files [of "fd1 s" len "offset - offset1 s" k] have "files k' = files k"
    by simp
  with Pair show ?thesis
    by (simp add: vte_file_stream_read_def Let_def read_current_files)
qed

lemma write_contents_files:
  "files (snd (vte_file_stream_write_contents s offset k)) = files k"
  by (auto simp: vte_file_stream_write_contents_def write_current_def xwrite_contents_def
      g_output_stream_splice_def sys_lseek_def Let_def split: list.splits event.splits prod.splits)

lemma drained_reset: "drained (vte_file_stream_reset s base k)"
  by (simp add: drained_def vte_file_stream_reset_def Let_def xtruncate_eq resize_def)

lemma drained_append_nothing:
  assumes "drained (s, k)"
  shows "\<exists>w'. vte_file_stream_append s [] 0 k = Inr w' \<and> drained w'"
  using assms
  by (auto simp: drained_def vte_file_stream_append_def vte_file_stream_ensure_fd0_def
      vte_mkstemp_def xpwrite_def xpwrite_loop.simps Let_def)

lemma drained_truncate:
  assumes "drained (s, k)" and "offset \<le> head s"
  shows "drained (vte_file_stream_truncate s offset k)"
proof (cases "offset < head s")
  case True
  with assms(1) show ?thesis
    by (auto simp: drained_def vte_file_stream_truncate_def vte_file_stream_swap_fds_def
        xtruncate_eq resize_def)
next
  case False
  with assms(2) have "offset = head s" by simp
  with assms(1) show ?thesis
    by (auto simp: drained_def vte_file_stream_truncate_def xtruncate_eq resize_def)
qed

lemma drained_new_page: "drained (s, k) \<Longrightarrow> drained (vte_file_stream_new_page s k)"
  by (auto simp: drained_def vte_file_stream_new_page_def vte_file_stream_swap_fds_def Let_def
      xtruncate_eq resize_def)

lemma drained_step:
  assumes "drained w" and "quiet x w"
  shows "\<exists>w'. step x w = Inr w' \<and> drained w'"
proof -
  obtain s k where w: "w = (s, k)" by (cases w)
  show ?thesis
  proof (cases x)
    case (Reset offset)
    with w drained_reset [of s offset k] show ?thesis by simp
  next
    case (Append data)
    with assms w drained_append_nothing [of s k] show ?thesis by simp
  next
    case (Read offset len)
    with assms w read_files [of s offset len k] show ?thesis
      by (simp add: drained_def)
  next
    case (Truncate offset)
    with assms w drained_truncate [of s k offset] show ?thesis by simp
  next
    case Rotate
    with assms w drained_new_page [of s k] show ?thesis by simp
  next
    case Head
    with assms w show ?thesis by simp
  next
    case (WriteContentsFrom offset)
    with assms w write_contents_files [of s offset k] show ?thesis
      by (simp add: drained_def)
  qed
qed

lemma drained_run:
  "drained w \<Longrightarrow> quietly ops w \<Longrightarrow> \<exists>w'. run ops w = Inr w' \<and> drained w'"
proof (induction ops arbitrary: w)
  case Nil
  then show ?case by simp
next
  case (Cons x xs)
  from Cons.prems have "quiet x w" by simp
  from drained_step [OF Cons.prems(1) this]
  obtain w1 where w1: "step x w = Inr w1" and d1: "drained w1" by blast
  from Cons.prems(2) w1 have "quietly xs w1" by simp
  from Cons.IH [OF d1 this] w1 show ?case by simp
qed

lemma drained_read:
  assumes "drained w" and "len \<noteq> 0"
  shows "read_at w offset len = (False, [])"
proof -
  obtain s k where w: "w = (s, k)" by (cases w)
  from assms(1) w have eq: "offset1 s = offset0 s"
    and empty: "fd0 s \<noteq> 0 \<longrightarrow> files k (fd0 s) = []"
    by (simp_all add: drained_def)
  have "fst (xpread (fd0 s) len (offset - offset0 s) k) = []"
    using assms(2) empty xpread_loop_empty [of k "fd0 s" len "offset - offset0 s" "[]"]
    by (auto simp: xpread_def)
  with assms(2) eq w show ?thesis
    by (cases "xpread (fd0 s) len (offset - offset0 s) k")
       (simp add: read_at_def vte_file_stream_read_def read_current_def)
qed

section \<open>The example trace\<close>

text \<open>
  C3, as the specification has it: after \<open>append "AAAA"\<close>, \<open>rotate\<close>, \<open>append "BBBB"\<close>,
  \<open>rotate\<close>, \<open>append "CCCC"\<close> on a fresh stream, \<open>offset_previous\<close> is 8, \<open>read(4, 4)\<close>
  fails and \<open>read(8, 4)\<close> returns "CCCC". The code does not do that: the second rotation
  sets \<open>offset[1]\<close> to the old \<open>offset[0]\<close>, which is 4, and the "BBBB" generation is
  the previous one, still readable.
\<close>

theorem C3_example_trace_counterexample:
  "\<not> (offset1 (fst (projr (run example_trace (vte_file_stream_new, boot [])))) = 8
      \<and> \<not> fst (read_at (projr (run example_trace (vte_file_stream_new, boot []))) 4 4)
      \<and> read_at (projr (run example_trace (vte_file_stream_new, boot []))) 8 4 = (True, ''CCCC''))"
  by (simp add: sys_eval stream_eval)

text \<open>
  C3, amended: when no call of the operating system fails, the trace ends with
  \<open>offset_previous = 4\<close>; \<open>read(0, 4)\<close> fails, since the "AAAA" generation was evicted
  by the second rotation; \<open>read(4, 4)\<close> returns "BBBB" and \<open>read(8, 4)\<close> returns "CCCC".
\<close>

theorem C3_example_trace:
  "\<not> isl (run example_trace (vte_file_stream_new, boot []))
   \<and> offset1 (fst (projr (run example_trace (vte_file_stream_new, boot [])))) = 4
   \<and> read_at (projr (run example_trace (vte_file_stream_new, boot []))) 0 4 = (False, [])
   \<and> read_at (projr (run example_trace (vte_file_stream_new, boot []))) 4 4 = (True, ''BBBB'')
   \<and> read_at (projr (run example_trace (vte_file_stream_new, boot []))) 8 4 = (True, ''CCCC'')"
  by (simp add: sys_eval stream_eval)

section \<open>Reads outside the retained range\<close>

text \<open>
  C5: in every state and for every length, a read at an offset below \<open>offset_previous\<close>
  returns false, delivers nothing, and changes neither the stream nor the system.
\<close>

theorem C5_read_below_previous:
  "offset < offset1 s \<Longrightarrow>
   vte_file_stream_read s offset len k = ((False, []), k)
   \<and> step (Read offset len) (s, k) = Inr (s, k)"
  by (simp add: vte_file_stream_read_def)

theorem C5_read_below_previous_witness:
  "(3 :: gsize) < offset1 \<lparr>fd0 = 3, fd1 = 4, offset0 = 8, offset1 = 4, head = 12\<rparr>
   \<and> vte_file_stream_read \<lparr>fd0 = 3, fd1 = 4, offset0 = 8, offset1 = 4, head = 12\<rparr> 3 1 (boot [])
       = ((False, []), boot [])
   \<and> step (Read 3 1) (\<lparr>fd0 = 3, fd1 = 4, offset0 = 8, offset1 = 4, head = 12\<rparr>, boot [])
       = Inr (\<lparr>fd0 = 3, fd1 = 4, offset0 = 8, offset1 = 4, head = 12\<rparr>, boot [])"
  using C5_read_below_previous
    [of 3 "\<lparr>fd0 = 3, fd1 = 4, offset0 = 8, offset1 = 4, head = 12\<rparr>" 1 "boot []"]
  by simp

text \<open>
  C9: in every state, a read of length zero at an offset that is not below
  \<open>offset_previous\<close> returns true (and delivers nothing), also at or beyond \<open>head\<close>.
\<close>

theorem C9_zero_length_read:
  "offset1 s \<le> offset \<Longrightarrow> vte_file_stream_read s offset 0 k = ((True, []), k)"
  by (simp add: vte_file_stream_read_def read_current_def xpread_def xpread_loop.simps)

theorem C9_zero_length_read_witness:
  "offset1 \<lparr>fd0 = 3, fd1 = 4, offset0 = 8, offset1 = 4, head = 12\<rparr> \<le> (1000 :: gsize)
   \<and> head \<lparr>fd0 = 3, fd1 = 4, offset0 = 8, offset1 = 4, head = 12\<rparr> < (1000 :: gsize)
   \<and> vte_file_stream_read \<lparr>fd0 = 3, fd1 = 4, offset0 = 8, offset1 = 4, head = 12\<rparr> 1000 0 (boot [])
       = ((True, []), boot [])"
  using C9_zero_length_read
    [of "\<lparr>fd0 = 3, fd1 = 4, offset0 = 8, offset1 = 4, head = 12\<rparr>" 1000 "boot []"]
  by simp

section \<open>Appending without a store\<close>

text \<open>
  C10 says that an append advances \<open>head\<close> by \<open>len\<close> also when the current store could
  not be allocated. In the code \<open>_vte_file_stream_ensure_fd0\<close> returns with \<open>fd[0]\<close> still
  0, and \<open>_xpwrite\<close> then stops the program at \<open>g_assert (fd || !len)\<close>: appending one
  byte to a new stream whose store cannot be allocated does not return.
\<close>

theorem C10_append_without_store:
  "vte_file_stream_append vte_file_stream_new ''A'' 1 (boot [Fail ENOSPC]) = Inl AssertionFailed"
  by (simp add: sys_eval stream_eval)

section \<open>Appends followed by a read\<close>

text \<open>
  C1, as the specification has it: after any appends \<open>d1, ..., dn\<close> onto a freshly reset
  stream, reading their total length from \<open>base\<close> succeeds and returns the concatenation.
  Writes are best effort: when a write fails or is cut short for good, \<open>_xpwrite\<close> gives up
  without a word and \<open>head\<close> advances all the same, so the read comes back short.
  Here the first \<open>pwrite\<close> stores one byte of "AB" and the second fails with ENOSPC.
\<close>

theorem C1_appends_then_read_counterexample:
  "\<not> isl (run (map Append [''AB''])
           (vte_file_stream_reset vte_file_stream_new 0 (boot [Transfer 1, Fail ENOSPC])))
   \<and> read_at (projr (run (map Append [''AB''])
           (vte_file_stream_reset vte_file_stream_new 0 (boot [Transfer 1, Fail ENOSPC])))) 0 2
      = (False, ''A'')"
  by (simp add: sys_eval stream_eval)

text \<open>
  C1, amended: when every event still to come is harmless (interruptions and transfers
  cut short, but no failure) and the total length fits into a \<open>gsize\<close>, the appends
  \<open>d1, ..., dn\<close> onto a stream just reset to \<open>base\<close> all return, and reading the total
  length from \<open>base\<close> then succeeds and delivers exactly \<open>d1 @ ... @ dn\<close>.
\<close>

theorem C1_appends_then_read:
  assumes "list_all harmless (script k)" and "sum_list (map length ds) < 2 ^ 64"
  shows "\<exists>w. run (map Append ds) (vte_file_stream_reset s base k) = Inr w
            \<and> read_at w base (of_nat (sum_list (map length ds))) = (True, concat ds)"
proof -
  from run_appended [OF reset_appended [OF assms(1), of base s], of ds] assms(2)
  obtain w where w: "run (map Append ds) (vte_file_stream_reset s base k) = Inr w"
    and inv: "appended base (concat ds) w"
    by auto
  from read_appended [OF inv] assms(2) have "read_at w base (of_nat (length (concat ds))) = (True, concat ds)"
    by (simp add: length_concat)
  with w show ?thesis
    by (auto simp: length_concat)
qed

theorem C1_appends_then_read_witness:
  "list_all harmless (script (boot [Fail EINTR, Transfer 1]))
   \<and> sum_list (map length [''ab'', ''c'']) < (2 :: nat) ^ 64
   \<and> (\<exists>w. run (map Append [''ab'', ''c''])
             (vte_file_stream_reset vte_file_stream_new 5 (boot [Fail EINTR, Transfer 1])) = Inr w
          \<and> read_at w 5 3 = (True, ''abc''))"
  using C1_appends_then_read [of "boot [Fail EINTR, Transfer 1]" "[''ab'', ''c'']"
      vte_file_stream_new 5]
  by (simp add: boot_def)

section \<open>The invariant of the offsets\<close>

text \<open>
  C2, as the specification has it: \<open>offset_previous \<le> offset_current \<le> head\<close> holds in
  every state reachable from the initial one. \<open>head\<close> is a \<open>gsize\<close> and
  \<open>stream->head += len\<close> wraps around: after a reset to the largest offset, appending
  two bytes leaves \<open>head = 1\<close> below \<open>offset[0]\<close>.
\<close>

theorem C2_offsets_ordered_counterexample:
  "\<not> isl (run [Reset 18446744073709551615, Append ''AB''] (vte_file_stream_new, boot []))
   \<and> \<not> offset0 (fst (projr (run [Reset 18446744073709551615, Append ''AB'']
                              (vte_file_stream_new, boot []))))
        \<le> head (fst (projr (run [Reset 18446744073709551615, Append ''AB'']
                              (vte_file_stream_new, boot []))))"
  by (simp add: sys_eval stream_eval)

text \<open>
  C2, amended: \<open>offset_previous \<le> offset_current \<le> head\<close> holds in every state reached
  from a new stream by reset, append, read, truncate, rotate, head and writeContentsFrom,
  whatever the operating system does, as long as no append carries \<open>head\<close> past the
  largest \<open>gsize\<close>.
\<close>

theorem C2_offsets_ordered:
  assumes "fitting ops (vte_file_stream_new, k)"
    and "run ops (vte_file_stream_new, k) = Inr w"
  shows "offset1 (fst w) \<le> offset0 (fst w) \<and> offset0 (fst w) \<le> head (fst w)"
proof -
  have "offsets_ordered (fst (vte_file_stream_new, k))"
    by (simp add: offsets_ordered_def vte_file_stream_new_def)
  from ordered_run [OF this assms] show ?thesis
    by (simp add: offsets_ordered_def)
qed

theorem C2_offsets_ordered_witness:
  "fitting mixed_trace (vte_file_stream_new, boot [Fail EINTR, Transfer 3])
   \<and> \<not> isl (run mixed_trace (vte_file_stream_new, boot [Fail EINTR, Transfer 3]))
   \<and> offset1 (fst (projr (run mixed_trace (vte_file_stream_new, boot [Fail EINTR, Transfer 3]))))
       \<le> offset0 (fst (projr (run mixed_trace (vte_file_stream_new, boot [Fail EINTR, Transfer 3]))))
   \<and> offset0 (fst (projr (run mixed_trace (vte_file_stream_new, boot [Fail EINTR, Transfer 3]))))
       \<le> head (fst (projr (run mixed_trace (vte_file_stream_new, boot [Fail EINTR, Transfer 3]))))"
  using C2_offsets_ordered [where ops = mixed_trace and k = "boot [Fail EINTR, Transfer 3]"
      and w = "projr (run mixed_trace (vte_file_stream_new, boot [Fail EINTR, Transfer 3]))"]
  by (simp add: mixed_trace_def sys_eval stream_eval vte_file_stream_write_contents_def
      write_current_def xwrite_contents_def g_output_stream_splice_def sys_lseek_def)

section \<open>Rotation\<close>

text \<open>
  C4: in every state, \<open>rotate\<close> sets \<open>offset_previous\<close> to the old \<open>offset_current\<close> and
  \<open>offset_current\<close> to \<open>head\<close>, swaps the two handles and empties the store that becomes
  the current one (when there is one); \<open>head\<close> and every other store, among them the one
  that becomes the previous generation, are unchanged.
\<close>

theorem C4_rotate:
  "case vte_file_stream_new_page s k of (s', k') \<Rightarrow>
     offset1 s' = offset0 s \<and> offset0 s' = head s \<and> head s' = head s
     \<and> fd0 s' = fd1 s \<and> fd1 s' = fd0 s
     \<and> (fd0 s' \<noteq> 0 \<longrightarrow> files k' (fd0 s') = [])
     \<and> (\<forall>fd. fd \<noteq> fd0 s' \<longrightarrow> files k' fd = files k fd)
     \<and> (fd0 s \<noteq> fd1 s \<longrightarrow> files k' (fd1 s') = files k (fd0 s))"
  by (simp add: vte_file_stream_new_page_def vte_file_stream_swap_fds_def Let_def xtruncate_eq
      resize_def)

theorem C4_rotate_witness:
  "fd0 sample_stream \<noteq> fd1 sample_stream
   \<and> (case vte_file_stream_new_page sample_stream (sample_sys [Fail EINTR]) of (s', k') \<Rightarrow>
        offset1 s' = 4 \<and> offset0 s' = 8 \<and> head s' = 8 \<and> fd0 s' = 3 \<and> fd1 s' = 4
        \<and> files k' 3 = [] \<and> files k' 4 = ''BBBB'')"
  using C4_rotate [where s = sample_stream and k = "sample_sys [Fail EINTR]"]
  by (simp add: sample_stream_def sample_sys_def sys_eval stream_eval)

section \<open>Truncation inside the current generation\<close>




section \<open>Reset\<close>

text \<open>
  C7, as the specification has it: after \<open>reset(k)\<close> every read at an offset \<open>\<ge> k\<close>
  fails until data is appended. A read of length zero succeeds; and after a truncation
  to an offset beyond \<open>head\<close>, which extends the current store by zero bytes, so does a
  read of these bytes, although nothing has been appended.
\<close>

theorem C7_reset_counterexample:
  "fst (read_at (vte_file_stream_reset sample_stream 5 (sample_sys [])) 5 0)
   \<and> read_at (projr (run [Reset 5, Truncate 7] (sample_stream, sample_sys []))) 5 2
       = (True, replicate 2 (CHR 0x00))"
  by (simp add: sample_stream_def sample_sys_def sys_eval stream_eval)

text \<open>
  C7, amended: \<open>reset(k)\<close> leaves \<open>head = offset_current = offset_previous = k\<close>. After
  it, and after any further operations that are quiet (resets, rotations, reads, \<open>head\<close>,
  \<open>writeContentsFrom\<close>, appends of no bytes, and truncations to offsets not beyond
  \<open>head\<close>), which all return, every read of a non-zero length at an offset \<open>\<ge> k\<close>
  returns false and delivers nothing, whatever the operating system does: reads fail
  until a byte is appended or the stream is truncated beyond \<open>head\<close>.
\<close>

theorem C7_reset:
  "case vte_file_stream_reset s base k of (s', k') \<Rightarrow>
     vte_file_stream_head s' = base \<and> offset0 s' = base \<and> offset1 s' = base
     \<and> (\<forall>ops offset len. quietly ops (s', k') \<and> base \<le> offset \<and> len \<noteq> 0 \<longrightarrow>
           (\<exists>w. run ops (s', k') = Inr w \<and> read_at w offset len = (False, [])))"
proof -
  obtain s' k' where r: "vte_file_stream_reset s base k = (s', k')"
    by (cases "vte_file_stream_reset s base k")
  then have s': "s' = s\<lparr>offset1 := base, offset0 := base, head := base\<rparr>"
    by (auto simp: vte_file_stream_reset_def Let_def)
  from drained_reset [of s base k] r have d: "drained (s', k')" by simp
  have "\<exists>w. run ops (s', k') = Inr w \<and> read_at w offset len = (False, [])"
    if h: "quietly ops (s', k') \<and> base \<le> offset \<and> len \<noteq> 0" for ops offset len
  proof -
    from h drained_run [OF d, of ops] obtain w where "run ops (s', k') = Inr w" "drained w"
      by blast
    with h drained_read [of w len offset] show ?thesis by simp
  qed
  with r s' show ?thesis
    by (simp add: vte_file_stream_head_def)
qed

theorem C7_reset_witness:
  "quietly quiet_trace (vte_file_stream_reset sample_stream 5 (sample_sys [Fail EINTR]))
   \<and> (5 :: gsize) \<le> 7 \<and> (2 :: gsize) \<noteq> 0
   \<and> vte_file_stream_head (fst (vte_file_stream_reset sample_stream 5 (sample_sys [Fail EINTR]))) = 5
   \<and> \<not> isl (run quiet_trace (vte_file_stream_reset sample_stream 5 (sample_sys [Fail EINTR])))
   \<and> read_at (projr (run quiet_trace
         (vte_file_stream_reset sample_stream 5 (sample_sys [Fail EINTR])))) 7 2 = (False, [])"
  using C7_reset [where s = sample_stream and base = 5 and k = "sample_sys [Fail EINTR]"]
  by (simp add: quiet_trace_def sample_stream_def sample_sys_def sys_eval stream_eval
      vte_file_stream_head_def vte_file_stream_write_contents_def write_current_def
      xwrite_contents_def g_output_stream_splice_def sys_lseek_def)

section \<open>The positional write\<close>



end
